theory Spec2Isabelle
  imports Main "HOL-Library.Word" "HOL-Library.Sublist"
begin

unbundle bit_operations_syntax

section \<open>The FSEvents publisher of osquery (osquery/events/darwin/fsevents.cpp)\<close>

text \<open>
  The publisher owns one native FSEvents stream over a set of paths, resolves the
  paths of its subscriptions through symbolic links at configure time, expands each
  raw event of a callback batch into one fired event per matching action, and decides
  with \<open>shouldFire\<close> whether a fired event reaches a subscription.

  Native handles are opaque identities. An event flag word is the 32-bit
  \<open>FSEventStreamEventFlags\<close>, an event id the 64-bit \<open>FSEventStreamEventId\<close>.
\<close>

type_synonym FSEventStreamRef = nat
type_synonym CFRunLoopRef = nat
type_synonym FSEventStreamEventFlags = "32 word"
type_synonym FSEventStreamEventId = "64 word"

subsection \<open>Flag bits of the platform\<close>

text \<open>
  The flag constants come from the header \<open>FSEvents.h\<close> of the macOS CoreServices
  framework, which is no part of the repository; the values below are the ones that
  header gives them.
\<close>

definition kFSEventStreamEventFlagMustScanSubDirs :: FSEventStreamEventFlags where
  "kFSEventStreamEventFlagMustScanSubDirs = 0x00000001"

definition kFSEventStreamEventFlagRootChanged :: FSEventStreamEventFlags where
  "kFSEventStreamEventFlagRootChanged = 0x00000020"

definition kFSEventStreamEventFlagUnmount :: FSEventStreamEventFlags where
  "kFSEventStreamEventFlagUnmount = 0x00000080"

definition kFSEventStreamEventFlagItemCreated :: FSEventStreamEventFlags where
  "kFSEventStreamEventFlagItemCreated = 0x00000100"

definition kFSEventStreamEventFlagItemRemoved :: FSEventStreamEventFlags where
  "kFSEventStreamEventFlagItemRemoved = 0x00000200"

definition kFSEventStreamEventFlagItemInodeMetaMod :: FSEventStreamEventFlags where
  "kFSEventStreamEventFlagItemInodeMetaMod = 0x00000400"

definition kFSEventStreamEventFlagItemRenamed :: FSEventStreamEventFlags where
  "kFSEventStreamEventFlagItemRenamed = 0x00000800"

definition kFSEventStreamEventFlagItemModified :: FSEventStreamEventFlags where
  "kFSEventStreamEventFlagItemModified = 0x00001000"

definition kFSEventStreamEventFlagItemChangeOwner :: FSEventStreamEventFlags where
  "kFSEventStreamEventFlagItemChangeOwner = 0x00004000"

definition kFSEventStreamEventFlagItemXattrMod :: FSEventStreamEventFlags where
  "kFSEventStreamEventFlagItemXattrMod = 0x00008000"

subsection \<open>The table kMaskActions\<close>

text \<open>
  \<open>kMaskActions\<close> is a \<open>std::map\<close> built from an initialiser list. A \<open>std::map\<close>
  keeps its entries in ascending key order and its range-for loop visits them in that
  order; inserting a key that is already present changes nothing. The map is modelled
  as the association list of its entries in iteration order, \<open>std_map_insert\<close> being
  the insertion of one pair.
\<close>

fun std_map_insert :: "'k::linorder \<times> 'v \<Rightarrow> ('k \<times> 'v) list \<Rightarrow> ('k \<times> 'v) list" where
  "std_map_insert kv [] = [kv]"
| "std_map_insert kv (e # m) =
     (if fst kv < fst e then kv # e # m
      else if fst e < fst kv then e # std_map_insert kv m
      else e # m)"

definition std_map_of_list :: "('k::linorder \<times> 'v) list \<Rightarrow> ('k \<times> 'v) list" where
  "std_map_of_list init = foldl (\<lambda>m kv. std_map_insert kv m) [] init"

definition kMaskActions_init :: "(FSEventStreamEventFlags \<times> string) list" where
  "kMaskActions_init =
    [(kFSEventStreamEventFlagItemChangeOwner, ''ATTRIBUTES_MODIFIED''),
     (kFSEventStreamEventFlagItemXattrMod, ''ATTRIBUTES_MODIFIED''),
     (kFSEventStreamEventFlagItemInodeMetaMod, ''ATTRIBUTES_MODIFIED''),
     (kFSEventStreamEventFlagItemCreated, ''CREATED''),
     (kFSEventStreamEventFlagItemRemoved, ''DELETED''),
     (kFSEventStreamEventFlagItemModified, ''UPDATED''),
     (kFSEventStreamEventFlagItemRenamed, ''MOVED_TO''),
     (kFSEventStreamEventFlagMustScanSubDirs, ''COLLISION_WITHIN''),
     (kFSEventStreamEventFlagUnmount, ''UNMOUNTED''),
     (kFSEventStreamEventFlagRootChanged, ''ROOT_CHANGED'')]"

definition kMaskActions :: "(FSEventStreamEventFlags \<times> string) list" where
  "kMaskActions = std_map_of_list kMaskActions_init"

subsection \<open>The callback\<close>

text \<open>
  The event context the callback fills in. \<open>createEventContext\<close> returns a fresh
  context; the callback sets four of its fields once and the action before each fire.
\<close>

record FSEventsEventContext =
  fsevent_stream :: FSEventStreamRef
  fsevent_flags :: FSEventStreamEventFlags
  transaction_id :: FSEventStreamEventId
  path :: string
  action :: string

definition createEventContext :: FSEventsEventContext where
  "createEventContext =
     \<lparr>fsevent_stream = 0, fsevent_flags = 0, transaction_id = 0, path = [], action = []\<rparr>"

text \<open>
  The state of the loop over \<open>kMaskActions\<close>: the context (whose action the loop
  overwrites), the calls of \<open>EventFactory::fire\<close> made so far, each with the context as
  it is at the call, and \<open>has_action\<close>.
\<close>

type_synonym fire_state = "FSEventsEventContext \<times> FSEventsEventContext list \<times> bool"

fun action_loop :: "(FSEventStreamEventFlags \<times> string) list \<Rightarrow> fire_state \<Rightarrow> fire_state" where
  "action_loop [] st = st"
| "action_loop (entry # rest) (ec, fired, has_action) =
     (if fsevent_flags ec AND fst entry \<noteq> 0
      then action_loop rest (ec\<lparr>action := snd entry\<rparr>, fired @ [ec\<lparr>action := snd entry\<rparr>], True)
      else action_loop rest (ec, fired, has_action))"

text \<open>One round of the callback's outer loop: the fire calls for the event at one index.\<close>

definition callback_event ::
  "FSEventStreamRef \<Rightarrow> string \<Rightarrow> FSEventStreamEventFlags \<Rightarrow> FSEventStreamEventId
    \<Rightarrow> FSEventsEventContext list" where
  "callback_event stream event_path flags event_id =
     (let ec = createEventContext\<lparr>fsevent_stream := stream, fsevent_flags := flags,
                 transaction_id := event_id, path := event_path\<rparr>;
          (ec', fired, has_action) = action_loop kMaskActions (ec, [], False)
      in if \<not> has_action then fired @ [ec'\<lparr>action := ''UNKNOWN''\<rparr>] else fired)"

text \<open>
  The callback receives three C arrays and their common length; an array is read at the
  indices below \<open>num_events\<close> only, and is modelled as a function of the index.
\<close>

definition Callback ::
  "FSEventStreamRef \<Rightarrow> nat \<Rightarrow> (nat \<Rightarrow> string) \<Rightarrow> (nat \<Rightarrow> FSEventStreamEventFlags)
    \<Rightarrow> (nat \<Rightarrow> FSEventStreamEventId) \<Rightarrow> FSEventsEventContext list" where
  "Callback stream num_events event_paths fsevent_flags_arr fsevent_ids =
     concat (map (\<lambda>i. callback_event stream (event_paths i) (fsevent_flags_arr i) (fsevent_ids i))
                 [0..<num_events])"

text \<open>Vocabulary for the claims about the callback: the record fired for an event with a
  given action, and the table entries whose bit is set in a flag word, in table order.\<close>

definition event_record ::
  "FSEventStreamRef \<Rightarrow> string \<Rightarrow> FSEventStreamEventFlags \<Rightarrow> FSEventStreamEventId \<Rightarrow> string
    \<Rightarrow> FSEventsEventContext" where
  "event_record s event_path flags event_id act =
     \<lparr>fsevent_stream = s, fsevent_flags = flags, transaction_id = event_id,
      FSEventsEventContext.path = event_path, action = act\<rparr>"

definition matching_entries ::
  "FSEventStreamEventFlags \<Rightarrow> (FSEventStreamEventFlags \<times> string) list" where
  "matching_entries flags = filter (\<lambda>e. flags AND fst e \<noteq> 0) kMaskActions"

subsection \<open>The subscription filter\<close>

text \<open>
  The members \<open>path\<close>, \<open>link_\<close>, \<open>recursive\<close> and \<open>mask\<close> of the subscription
  context. A name cannot end in an underscore here, so the member \<open>link_\<close> is the field
  \<open>link\<close>, and likewise for the members of the publisher below.
\<close>

record FSEventsSubscriptionContext =
  path :: string
  link :: string
  recursive :: bool
  mask :: FSEventStreamEventFlags

text \<open>
  \<open>std::string::find\<close> from position 0: the lowest index at which the needle occurs,
  \<open>None\<close> standing for \<open>npos\<close>. The source stores the result in an \<open>ssize_t\<close> and
  compares it with 0; \<open>npos\<close> becomes -1 there, which is not 0.
\<close>

fun string_find :: "string \<Rightarrow> string \<Rightarrow> nat option" where
  "string_find [] needle = (if needle = [] then Some 0 else None)"
| "string_find (c # cs) needle =
     (if prefix needle (c # cs) then Some 0 else map_option Suc (string_find cs needle))"

text \<open>\<open>c_str()\<close> hands a C function the bytes before the first NUL.\<close>

definition c_str :: "string \<Rightarrow> string" where
  "c_str s = takeWhile (\<lambda>c. c \<noteq> CHR 0x00) s"

datatype fnm_flag = FNM_PATHNAME | FNM_CASEFOLD

text \<open>
  \<open>fnmatch\<close> is the C library's; \<open>shouldFire\<close> takes it as a parameter (pattern, string
  and flags to the result, 0 for a match). The first test of \<open>shouldFire\<close> is the path
  test: a recursive subscription returns false unless \<open>find\<close> answers 0, any other
  returns false unless \<open>fnmatch\<close> does; the mask test follows.
\<close>

type_synonym fnmatch_fun = "string \<Rightarrow> string \<Rightarrow> fnm_flag list \<Rightarrow> int"

definition shouldFire ::
  "fnmatch_fun \<Rightarrow> FSEventsSubscriptionContext \<Rightarrow> FSEventsEventContext \<Rightarrow> bool" where
  "shouldFire fnmatch sc ec =
     (if (if recursive sc
          then string_find (FSEventsEventContext.path ec) (path sc) \<noteq> Some 0
          else fnmatch (c_str (path sc @ ''*'')) (c_str (FSEventsEventContext.path ec))
                 [FNM_PATHNAME, FNM_CASEFOLD] \<noteq> 0)
      then False
      else if mask sc \<noteq> 0 \<and> \<not> (fsevent_flags ec AND mask sc \<noteq> 0)
      then False
      else True)"

subsection \<open>The platform\<close>

text \<open>
  What the publisher asks of its surroundings, as a record of functions: the file system
  probes \<open>fs::is_symlink\<close> and \<open>fs::read_symlink\<close> (with the error code argument, so a
  failed probe answers \<open>False\<close>, a failed read the empty path), the path operations
  \<open>is_absolute\<close>, \<open>parent_path\<close> and \<open>operator/\<close> of boost::filesystem on path strings,
  and the results of the CoreServices calls. \<open>FSEventStreamCreate\<close> answers with a
  stream or with null (\<open>None\<close>), \<open>FSEventStreamStart\<close> with success or failure.
\<close>

record platform =
  is_symlink :: "string \<Rightarrow> bool"
  read_symlink :: "string \<Rightarrow> string"
  is_absolute :: "string \<Rightarrow> bool"
  parent_path :: "string \<Rightarrow> string"
  path_append :: "string \<Rightarrow> string \<Rightarrow> string"
  FSEventStreamCreate :: "string set \<Rightarrow> FSEventStreamRef option"
  FSEventStreamStart :: "FSEventStreamRef \<Rightarrow> bool"
  CFRunLoopGetCurrent :: CFRunLoopRef
  CFRunLoopIsWaiting :: "CFRunLoopRef \<Rightarrow> bool"

subsection \<open>The path resolver of configure\<close>

definition FSEVENTS_MAX_SYMLINK_DEPTH :: nat where
  "FSEVENTS_MAX_SYMLINK_DEPTH = 5"

text \<open>The body of the loop for a path that is a link (lines 141 to 149).\<close>

definition follow_link :: "platform \<Rightarrow> FSEventsSubscriptionContext \<Rightarrow> FSEventsSubscriptionContext" where
  "follow_link pf sub =
     (let sub1 = (if length (link sub) = 0 then sub\<lparr>link := path sub\<rparr> else sub);
          source_path = read_symlink pf (path sub1);
          source_path' = (if \<not> is_absolute pf source_path
                          then path_append pf (parent_path pf (link sub1)) source_path
                          else source_path)
      in sub1\<lparr>path := source_path'\<rparr>)"

text \<open>The loop \<open>while (link_depth++ < FSEVENTS_MAX_SYMLINK_DEPTH)\<close>, by its counter.\<close>

function symlink_loop ::
  "platform \<Rightarrow> nat \<Rightarrow> FSEventsSubscriptionContext \<Rightarrow> FSEventsSubscriptionContext" where
  "symlink_loop pf link_depth sub =
     (if link_depth < FSEVENTS_MAX_SYMLINK_DEPTH
      then (if is_symlink pf (path sub)
            then symlink_loop pf (link_depth + 1) (follow_link pf sub)
            else sub)
      else sub)"
  by pat_completeness auto
termination
  by (relation "measure (\<lambda>(pf, link_depth, sub). FSEVENTS_MAX_SYMLINK_DEPTH - link_depth)") auto

declare symlink_loop.simps [simp del]

text \<open>
  The loop over the subscriptions: each context is resolved in place and its path
  inserted into the set of watched paths.
\<close>

fun configure_subscriptions ::
  "platform \<Rightarrow> FSEventsSubscriptionContext list \<Rightarrow> string set
    \<Rightarrow> FSEventsSubscriptionContext list \<times> string set" where
  "configure_subscriptions pf [] ps = ([], ps)"
| "configure_subscriptions pf (sub # subs) ps =
     (let sub' = symlink_loop pf 0 sub;
          (subs', ps') = configure_subscriptions pf subs (insert (path sub') ps)
      in (sub' # subs', ps'))"

subsection \<open>The publisher and its stream\<close>

text \<open>
  The calls the publisher makes are kept in a trace: the CoreServices calls on streams
  and run loops, the error log, and the entries into \<open>restart\<close>. The CFString and CFArray
  arguments, which \<open>restart\<close> creates and releases itself, are left out.
\<close>

datatype call =
    Call_restart
  | Call_FSEventStreamCreate "string set"
  | Call_FSEventStreamScheduleWithRunLoop FSEventStreamRef CFRunLoopRef
  | Call_FSEventStreamStart FSEventStreamRef
  | Call_FSEventStreamStop FSEventStreamRef
  | Call_FSEventStreamUnscheduleFromRunLoop FSEventStreamRef "CFRunLoopRef option"
  | Call_FSEventStreamInvalidate FSEventStreamRef
  | Call_FSEventStreamRelease FSEventStreamRef
  | Call_FSEventStreamFlushAsync FSEventStreamRef
  | Call_FSEventStreamFlushSync FSEventStreamRef
  | Call_CFRunLoopStop CFRunLoopRef
  | Call_CFRunLoopRun
  | LOG_ERROR string

record FSEventsEventPublisher =
  subscriptions :: "FSEventsSubscriptionContext list"
  paths :: "string set"
  run_loop :: "CFRunLoopRef option"
  stream :: "FSEventStreamRef option"
  stream_started :: bool
  calls :: "call list"

text \<open>
  Modelled from the spec: the class declaration (fsevents.h) with the initial values of
  the members is not among the sources. The spec's PublisherState starts stopped: no
  loop, no stream, not started, no watched paths.
\<close>

definition new_publisher :: FSEventsEventPublisher where
  "new_publisher =
     \<lparr>subscriptions = [], paths = {}, run_loop = None, stream = None,
      stream_started = False, calls = []\<rparr>"

definition called :: "call list \<Rightarrow> FSEventsEventPublisher \<Rightarrow> FSEventsEventPublisher" where
  "called cs p = p\<lparr>calls := calls p @ cs\<rparr>"

definition stop :: "FSEventsEventPublisher \<Rightarrow> FSEventsEventPublisher" where
  "stop p =
     (let p1 = (case stream p of
                  Some st \<Rightarrow>
                    (called [Call_FSEventStreamStop st,
                             Call_FSEventStreamUnscheduleFromRunLoop st (run_loop p),
                             Call_FSEventStreamInvalidate st,
                             Call_FSEventStreamRelease st] p)
                      \<lparr>stream_started := False, stream := None\<rparr>
                | None \<Rightarrow> p)
      in case run_loop p1 of
           Some rl \<Rightarrow> called [Call_CFRunLoopStop rl] p1
         | None \<Rightarrow> p1)"

definition restart :: "platform \<Rightarrow> FSEventsEventPublisher \<Rightarrow> FSEventsEventPublisher" where
  "restart pf p0 =
     (let p = called [Call_restart] p0 in
      if paths p = {} then p
      else case run_loop p of
        None \<Rightarrow> p
      | Some rl \<Rightarrow>
          (let watch_list = c_str ` paths p;
               p1 = called [Call_FSEventStreamCreate watch_list] (stop p)
           in case FSEventStreamCreate pf watch_list of
                Some st \<Rightarrow>
                  (let p2 = called [Call_FSEventStreamScheduleWithRunLoop st rl,
                                    Call_FSEventStreamStart st] (p1\<lparr>stream := Some st\<rparr>)
                   in if FSEventStreamStart pf st
                      then p2\<lparr>stream_started := True\<rparr>
                      else called
                        [LOG_ERROR ''Cannot start FSEvent stream: FSEventStreamStart failed''] p2)
              | None \<Rightarrow>
                  called
                    [LOG_ERROR ''Cannot create FSEvent stream: FSEventStreamCreate failed'']
                    (p1\<lparr>stream := None\<rparr>)))"

definition tearDown :: "FSEventsEventPublisher \<Rightarrow> FSEventsEventPublisher" where
  "tearDown p = (stop p)\<lparr>run_loop := None\<rparr>"

definition configure :: "platform \<Rightarrow> FSEventsEventPublisher \<Rightarrow> FSEventsEventPublisher" where
  "configure pf p =
     (let (subs', ps') = configure_subscriptions pf (subscriptions p) {};
          p1 = p\<lparr>subscriptions := subs', paths := ps'\<rparr>
      in if paths p1 = {} then p1 else restart pf p1)"

text \<open>
  \<open>run\<close> up to its return; \<open>CFRunLoopRun\<close> blocks the thread in between, which the
  trace records as a call. The status is the pair of code and message.
\<close>

definition run :: "platform \<Rightarrow> FSEventsEventPublisher \<Rightarrow> FSEventsEventPublisher \<times> (int \<times> string)" where
  "run pf p =
     (let p1 = (if run_loop p = None
                then restart pf (p\<lparr>run_loop := Some (CFRunLoopGetCurrent pf)\<rparr>)
                else p)
      in (called [Call_CFRunLoopRun] p1, (0, ''OK'')))"

definition end_publisher :: "FSEventsEventPublisher \<Rightarrow> FSEventsEventPublisher" where
  "end_publisher p = stop p"

definition flush :: "bool \<Rightarrow> FSEventsEventPublisher \<Rightarrow> FSEventsEventPublisher" where
  "flush async p =
     (case stream p of
        Some st \<Rightarrow>
          if stream_started p
          then (if async then called [Call_FSEventStreamFlushAsync st] p
                else called [Call_FSEventStreamFlushSync st] p)
          else p
      | None \<Rightarrow> p)"

definition numSubscriptionedPaths :: "FSEventsEventPublisher \<Rightarrow> nat" where
  "numSubscriptionedPaths p = card (paths p)"

definition isStreamRunning :: "platform \<Rightarrow> FSEventsEventPublisher \<Rightarrow> bool" where
  "isStreamRunning pf p =
     (if stream p = None \<or> \<not> stream_started p then False
      else case run_loop p of
        None \<Rightarrow> False
      | Some rl \<Rightarrow> CFRunLoopIsWaiting pf rl)"

subsection \<open>Sequences of calls\<close>

text \<open>
  A publisher is driven by calls of its methods, each made on the platform as it is at
  that moment; between calls the subscription registry may replace the list of
  subscriptions.
\<close>

datatype method_call =
    Configure | Restart | Run | Stop | End | TearDown | Flush bool
  | Subscriptions "FSEventsSubscriptionContext list"

fun exec_method :: "platform \<Rightarrow> method_call \<Rightarrow> FSEventsEventPublisher \<Rightarrow> FSEventsEventPublisher" where
  "exec_method pf Configure p = configure pf p"
| "exec_method pf Restart p = restart pf p"
| "exec_method pf Run p = fst (run pf p)"
| "exec_method pf Stop p = stop p"
| "exec_method pf End p = end_publisher p"
| "exec_method pf TearDown p = tearDown p"
| "exec_method pf (Flush async) p = flush async p"
| "exec_method pf (Subscriptions subs) p = p\<lparr>subscriptions := subs\<rparr>"

fun exec :: "(platform \<times> method_call) list \<Rightarrow> FSEventsEventPublisher \<Rightarrow> FSEventsEventPublisher" where
  "exec [] p = p"
| "exec ((pf, m) # ms) p = exec ms (exec_method pf m p)"

subsection \<open>A concrete platform for the examples\<close>

text \<open>
  The path operations on POSIX path strings without a trailing or a repeated
  separator, where they agree with boost::filesystem: a path is absolute when it starts
  with the separator, its parent is what stands before its last separator (the root for
  a name directly under the root), and appending puts one separator in between.
\<close>

definition posix_is_absolute :: "string \<Rightarrow> bool" where
  "posix_is_absolute p = (case p of [] \<Rightarrow> False | c # _ \<Rightarrow> c = CHR ''/'')"

definition posix_parent_path :: "string \<Rightarrow> string" where
  "posix_parent_path p =
     (let d = rev (dropWhile (\<lambda>c. c \<noteq> CHR ''/'') (rev p))
      in if d = ''/'' then d else butlast d)"

definition posix_path_append :: "string \<Rightarrow> string \<Rightarrow> string" where
  "posix_path_append a b =
     (if b = [] then a
      else if a \<noteq> [] \<and> last a \<noteq> CHR ''/'' \<and> hd b \<noteq> CHR ''/'' then a @ ''/'' @ b
      else a @ b)"

text \<open>
  A file system given by the table of its links, and native calls with fixed results.
\<close>

definition example_platform ::
  "(string \<times> string) list \<Rightarrow> FSEventStreamRef option \<Rightarrow> bool \<Rightarrow> platform" where
  "example_platform links created started =
     \<lparr>is_symlink = (\<lambda>p. map_of links p \<noteq> None),
      read_symlink = (\<lambda>p. case map_of links p of Some t \<Rightarrow> t | None \<Rightarrow> []),
      is_absolute = posix_is_absolute,
      parent_path = posix_parent_path,
      path_append = posix_path_append,
      FSEventStreamCreate = (\<lambda>_. created),
      FSEventStreamStart = (\<lambda>_. started),
      CFRunLoopGetCurrent = 1,
      CFRunLoopIsWaiting = (\<lambda>_. True)\<rparr>"

subsection \<open>Vocabulary of the claims about the publisher\<close>

text \<open>
  The two directions between the stream handle and \<open>stream_started_\<close>, and the
  PublisherState of the spec: loop, stream, started flag and watched paths.
\<close>

definition stream_only_when_started :: "FSEventsEventPublisher \<Rightarrow> bool" where
  "stream_only_when_started p = (stream p \<noteq> None \<longrightarrow> stream_started p)"

definition started_only_with_stream :: "FSEventsEventPublisher \<Rightarrow> bool" where
  "started_only_with_stream p = (stream_started p \<longrightarrow> stream p \<noteq> None)"

definition publisher_state ::
  "FSEventsEventPublisher
    \<Rightarrow> CFRunLoopRef option \<times> FSEventStreamRef option \<times> bool \<times> string set" where
  "publisher_state p = (run_loop p, stream p, stream_started p, paths p)"

text \<open>
  Calls that never register a subscription, and a publisher that has none and has no
  stream.
\<close>

definition never_subscribed :: "(platform \<times> method_call) list \<Rightarrow> bool" where
  "never_subscribed ms = (\<forall>(pf, m) \<in> set ms. \<forall>subs. m = Subscriptions subs \<longrightarrow> subs = [])"

definition idle :: "FSEventsEventPublisher \<Rightarrow> bool" where
  "idle p = (subscriptions p = [] \<and> paths p = {} \<and> stream p = None \<and> \<not> stream_started p)"

text \<open>
  A hop of the resolver starts from a path that \<open>is_symlink\<close> has just found to be a
  link, which makes that path the one most recently known to be a link. In the words of
  the spec a relative target is resolved against the parent directory of that path:
\<close>

definition resolves_against_latest_link ::
  "platform \<Rightarrow> FSEventsSubscriptionContext \<Rightarrow> bool" where
  "resolves_against_latest_link pf sub =
     (path (follow_link pf sub)
        = path_append pf (parent_path pf (path sub)) (read_symlink pf (path sub)))"

subsection \<open>Examples\<close>

definition tmp_subscription :: FSEventsSubscriptionContext where
  "tmp_subscription = \<lparr>path = ''/tmp'', link = [], recursive = False, mask = 0\<rparr>"


definition start_succeeds :: "(platform \<times> method_call) list" where
  "start_succeeds =
     [(example_platform [] (Some 5) True, Subscriptions [tmp_subscription]),
      (example_platform [] (Some 5) True, Configure),
      (example_platform [] (Some 5) True, Run)]"

text \<open>
  The calls of \<open>start_succeeds\<close>, after which the registry is left without
  subscriptions.
\<close>

definition unsubscribed_while_running :: "(platform \<times> method_call) list" where
  "unsubscribed_while_running =
     [(example_platform [] (Some 5) True, Subscriptions [tmp_subscription]),
      (example_platform [] (Some 5) True, Configure),
      (example_platform [] (Some 5) True, Run),
      (example_platform [] (Some 5) True, Subscriptions [])]"


text \<open>
  Three links in three directories: \<open>/a/l1\<close> points to \<open>/b/l2\<close>, \<open>/b/l2\<close> to \<open>/c/l3\<close>,
  and \<open>/c/l3\<close> to the relative target \<open>t\<close>. A subscription to \<open>/a/l1\<close>, and the same
  subscription after two hops of the resolver.
\<close>

definition chain_platform :: platform where
  "chain_platform =
     example_platform
       [(''/a/l1'', ''/b/l2''), (''/b/l2'', ''/c/l3''), (''/c/l3'', ''t'')] None False"

definition chain_subscription :: FSEventsSubscriptionContext where
  "chain_subscription = \<lparr>path = ''/a/l1'', link = [], recursive = True, mask = 0\<rparr>"

definition chain_after_two_hops :: FSEventsSubscriptionContext where
  "chain_after_two_hops =
     follow_link chain_platform (follow_link chain_platform chain_subscription)"

text \<open>
  Six links in a row with absolute targets, \<open>/l/a\<close> to \<open>/l/b\<close> and so on to \<open>/l/f\<close>,
  which points to the directory \<open>/data\<close>.
\<close>

definition six_links :: platform where
  "six_links =
     example_platform
       [(''/l/a'', ''/l/b''), (''/l/b'', ''/l/c''), (''/l/c'', ''/l/d''),
        (''/l/d'', ''/l/e''), (''/l/e'', ''/l/f''), (''/l/f'', ''/data'')] (Some 5) True"

section \<open>Properties of the callback\<close>

lemmas flag_defs =
  kFSEventStreamEventFlagMustScanSubDirs_def kFSEventStreamEventFlagRootChanged_def
  kFSEventStreamEventFlagUnmount_def kFSEventStreamEventFlagItemCreated_def
  kFSEventStreamEventFlagItemRemoved_def kFSEventStreamEventFlagItemInodeMetaMod_def
  kFSEventStreamEventFlagItemRenamed_def kFSEventStreamEventFlagItemModified_def
  kFSEventStreamEventFlagItemChangeOwner_def kFSEventStreamEventFlagItemXattrMod_def

lemma kMaskActions_entries:
  "kMaskActions =
    [(0x1, ''COLLISION_WITHIN''), (0x20, ''ROOT_CHANGED''), (0x80, ''UNMOUNTED''),
     (0x100, ''CREATED''), (0x200, ''DELETED''), (0x400, ''ATTRIBUTES_MODIFIED''),
     (0x800, ''MOVED_TO''), (0x1000, ''UPDATED''), (0x4000, ''ATTRIBUTES_MODIFIED''),
     (0x8000, ''ATTRIBUTES_MODIFIED'')]"
  by (simp add: kMaskActions_def std_map_of_list_def kMaskActions_init_def flag_defs)


text \<open>
  What the loop over a table leaves behind, for any table: one fire per entry whose bit
  is set, in table order, each with the context as it was on entry but for the action.
\<close>

lemma action_loop_fired:
  "action_loop tbl (ec, fired, h) =
     (let ms = filter (\<lambda>e. fsevent_flags ec AND fst e \<noteq> 0) tbl in
      (if ms = [] then ec else ec\<lparr>action := snd (last ms)\<rparr>,
       fired @ map (\<lambda>e. ec\<lparr>action := snd e\<rparr>) ms,
       h \<or> ms \<noteq> []))"
proof (induction tbl arbitrary: ec fired h)
  case Nil
  then show ?case by simp
next
  case (Cons e tbl)
  show ?case
  proof (cases "fsevent_flags ec AND fst e \<noteq> 0")
    case True
    then show ?thesis
      by (simp add: Cons.IH Let_def)
  next
    case False
    then show ?thesis by (simp add: Cons.IH Let_def)
  qed
qed

lemma callback_event_fired:
  "callback_event s p fl tid =
     (if matching_entries fl = [] then [event_record s p fl tid ''UNKNOWN'']
      else map (\<lambda>e. event_record s p fl tid (snd e)) (matching_entries fl))"
  by (simp add: callback_event_def action_loop_fired createEventContext_def Let_def
      matching_entries_def event_record_def)



lemma matching_entries_none:
  "(matching_entries fl = []) = (\<forall>e \<in> set kMaskActions. fl AND fst e = 0)"
  by (auto simp: matching_entries_def filter_empty_conv)

lemma callback_event_fields:
  "ec \<in> set (callback_event s p fl tid) \<Longrightarrow> \<exists>a. ec = event_record s p fl tid a"
  by (auto simp: callback_event_fired split: if_splits)




text \<open>
  Claim C7. A raw event whose flags contain none of the bits of the table produces
  exactly one fire call, and the action of its record is UNKNOWN. The second conjunct
  says the same of a batch of that one event.
\<close>

theorem callback_unknown:
  "(\<forall>e \<in> set kMaskActions. fl AND fst e = 0) \<Longrightarrow>
     callback_event s p fl tid = [event_record s p fl tid ''UNKNOWN'']
     \<and> Callback s 1 (\<lambda>_. p) (\<lambda>_. fl) (\<lambda>_. tid) = [event_record s p fl tid ''UNKNOWN'']"
  by (simp add: callback_event_fired matching_entries_none Callback_def)

theorem callback_unknown_witness:
  "callback_event 7 ''/tmp/a.txt'' 0x10000 99
     = [event_record 7 ''/tmp/a.txt'' 0x10000 99 ''UNKNOWN'']"
proof -
  have h: "\<forall>e \<in> set kMaskActions. (0x10000 :: FSEventStreamEventFlags) AND fst e = 0"
    by (simp add: kMaskActions_entries)
  show ?thesis using callback_unknown [OF h, of 7 "''/tmp/a.txt''" 99] by simp
qed

text \<open>
  Claim C10. The fire calls of a batch are those of its events, index by index, and
  every fire call emitted for the event at an index carries the path, the flags and the
  transaction id of that index and the stream of the batch: its record is the record of
  that event with some action, so the fire calls of one event differ in the action
  only.
\<close>

theorem callback_fires_share_event_fields:
  "Callback s n ps fs ids = concat (map (\<lambda>i. callback_event s (ps i) (fs i) (ids i)) [0..<n])
   \<and> (\<forall>i < n. \<forall>ec \<in> set (callback_event s (ps i) (fs i) (ids i)).
         FSEventsEventContext.path ec = ps i \<and> fsevent_flags ec = fs i
         \<and> transaction_id ec = ids i \<and> fsevent_stream ec = s
         \<and> ec = event_record s (ps i) (fs i) (ids i) (action ec))"
  by (auto simp: Callback_def event_record_def dest!: callback_event_fields)

theorem callback_fires_share_event_fields_witness:
  "Callback 7 2 (\<lambda>i. if i = 0 then ''/tmp/a'' else ''/tmp/b'')
        (\<lambda>i. if i = 0 then 0x1400 else 0x10000) (\<lambda>i. if i = 0 then 41 else 42)
     = [event_record 7 ''/tmp/a'' 0x1400 41 ''ATTRIBUTES_MODIFIED'',
        event_record 7 ''/tmp/a'' 0x1400 41 ''UPDATED'',
        event_record 7 ''/tmp/b'' 0x10000 42 ''UNKNOWN'']"
proof -
  have a: "callback_event 7 ''/tmp/a'' 0x1400 41 =
     [event_record 7 ''/tmp/a'' 0x1400 41 ''ATTRIBUTES_MODIFIED'',
      event_record 7 ''/tmp/a'' 0x1400 41 ''UPDATED'']"
    by (simp add: callback_event_fired matching_entries_def kMaskActions_entries)
  have b: "callback_event 7 ''/tmp/b'' 0x10000 42 = [event_record 7 ''/tmp/b'' 0x10000 42 ''UNKNOWN'']"
    by (simp add: callback_event_fired matching_entries_def kMaskActions_entries)
  have two: "[0..<2] = [0, Suc 0]" by (simp add: upt_rec)
  show ?thesis
    using callback_fires_share_event_fields
      [of 7 2 "\<lambda>i. if i = 0 then ''/tmp/a'' else ''/tmp/b''"
          "\<lambda>i. if i = 0 then 0x1400 else 0x10000" "\<lambda>i. if i = 0 then 41 else 42"]
    by (simp add: a b two)
qed

section \<open>Properties of the subscription filter\<close>

lemma string_find_zero: "(string_find hay needle = Some 0) = prefix needle hay"
proof (cases hay)
  case Nil
  then show ?thesis by auto
next
  case (Cons c cs)
  then show ?thesis by (cases "string_find cs needle") auto
qed

text \<open>
  Claim C5. For a subscription with \<open>recursive\<close> set and a mask of 0, \<open>shouldFire\<close>
  answers true exactly when the path of the event begins with the path of the
  subscription, byte by byte from offset 0, whatever \<open>fnmatch\<close> would say.
\<close>

theorem shouldFire_recursive_prefix:
  "recursive sc \<Longrightarrow> mask sc = 0 \<Longrightarrow>
     shouldFire fnmatch sc ec = prefix (path sc) (FSEventsEventContext.path ec)"
  by (simp add: shouldFire_def string_find_zero)

theorem shouldFire_recursive_prefix_witness:
  "shouldFire (\<lambda>_ _ _. 1)
      \<lparr>path = ''/var/log'', link = [], recursive = True, mask = 0\<rparr>
      (event_record 3 ''/var/log/sys/debug.log'' 0x1000 42 ''UPDATED'')
   \<and> \<not> shouldFire (\<lambda>_ _ _. 0)
      \<lparr>path = ''/var/log'', link = [], recursive = True, mask = 0\<rparr>
      (event_record 3 ''/var/lib/x'' 0x1000 42 ''UPDATED'')"
  using shouldFire_recursive_prefix
      [of "\<lparr>path = ''/var/log'', link = [], recursive = True, mask = 0\<rparr>" "\<lambda>_ _ _. 1"
          "event_record 3 ''/var/log/sys/debug.log'' 0x1000 42 ''UPDATED''"]
    shouldFire_recursive_prefix
      [of "\<lparr>path = ''/var/log'', link = [], recursive = True, mask = 0\<rparr>" "\<lambda>_ _ _. 0"
          "event_record 3 ''/var/lib/x'' 0x1000 42 ''UPDATED''"]
  by (simp add: event_record_def)

text \<open>
  Claim C6. For a subscription with a mask other than 0 and an event none of whose
  flags is in the mask, \<open>shouldFire\<close> answers false, whether the subscription is
  recursive or not and whatever the path test finds.
\<close>

theorem shouldFire_mask_mismatch:
  "mask sc \<noteq> 0 \<Longrightarrow> fsevent_flags ec AND mask sc = 0 \<Longrightarrow> shouldFire fnmatch sc ec = False"
  by (simp add: shouldFire_def)

text \<open>The path test passes in both cases (a prefix, and an \<open>fnmatch\<close> that matches).\<close>

theorem shouldFire_mask_mismatch_witness:
  "\<not> shouldFire (\<lambda>_ _ _. 0)
      \<lparr>path = ''/var/log'', link = [], recursive = True, mask = 0x300\<rparr>
      (event_record 3 ''/var/log/sys/debug.log'' 0x1000 42 ''UPDATED'')
   \<and> \<not> shouldFire (\<lambda>_ _ _. 0)
      \<lparr>path = ''/var/log'', link = [], recursive = False, mask = 0x300\<rparr>
      (event_record 3 ''/var/log/sys/debug.log'' 0x1000 42 ''UPDATED'')"
  using shouldFire_mask_mismatch
      [of "\<lparr>path = ''/var/log'', link = [], recursive = True, mask = 0x300\<rparr>"
          "event_record 3 ''/var/log/sys/debug.log'' 0x1000 42 ''UPDATED''" "\<lambda>_ _ _. 0"]
    shouldFire_mask_mismatch
      [of "\<lparr>path = ''/var/log'', link = [], recursive = False, mask = 0x300\<rparr>"
          "event_record 3 ''/var/log/sys/debug.log'' 0x1000 42 ''UPDATED''" "\<lambda>_ _ _. 0"]
  by (simp add: event_record_def)

section \<open>Properties of the publisher\<close>

lemma called_fields [simp]:
  "stream (called cs p) = stream p" "stream_started (called cs p) = stream_started p"
  "run_loop (called cs p) = run_loop p" "paths (called cs p) = paths p"
  "subscriptions (called cs p) = subscriptions p" "calls (called cs p) = calls p @ cs"
  by (simp_all add: called_def)

lemma stop_fields:
  "stream (stop p) = None"
  "stream_started (stop p) = (stream p = None \<and> stream_started p)"
  "run_loop (stop p) = run_loop p"
  "paths (stop p) = paths p"
  "subscriptions (stop p) = subscriptions p"
  by (simp_all add: stop_def Let_def split: option.splits)

lemma restart_frame:
  "run_loop (restart pf p) = run_loop p" "paths (restart pf p) = paths p"
  "subscriptions (restart pf p) = subscriptions p"
  by (simp_all add: restart_def Let_def stop_fields split: option.splits)

lemma restart_started_only_with_stream:
  "started_only_with_stream p \<Longrightarrow> started_only_with_stream (restart pf p)"
  by (auto simp: started_only_with_stream_def restart_def Let_def stop_fields split: option.splits)


lemma configure_stream_fields:
  "configure pf p = (let p1 = p\<lparr>subscriptions := fst (configure_subscriptions pf (subscriptions p) {}),
                               paths := snd (configure_subscriptions pf (subscriptions p) {})\<rparr>
                     in if paths p1 = {} then p1 else restart pf p1)"
  by (simp add: configure_def Let_def split: prod.splits)

lemma exec_method_started_only_with_stream:
  assumes inv: "started_only_with_stream p"
  shows "started_only_with_stream (exec_method pf m p)"
proof (cases m)
  case Configure
  have "started_only_with_stream (p\<lparr>subscriptions := a, paths := b\<rparr>)" for a b
    using inv by (simp add: started_only_with_stream_def)
  then show ?thesis using Configure
    by (simp add: configure_stream_fields Let_def restart_started_only_with_stream)
next
  case Restart
  then show ?thesis using inv by (simp add: restart_started_only_with_stream)
next
  case Run
  have "started_only_with_stream (p\<lparr>run_loop := a\<rparr>)" for a
    using inv by (simp add: started_only_with_stream_def)
  then have "started_only_with_stream (restart pf (p\<lparr>run_loop := a\<rparr>))" for a
    by (rule restart_started_only_with_stream)
  then show ?thesis using Run inv
    by (simp add: run_def Let_def started_only_with_stream_def)
next
  case Stop
  then show ?thesis using inv by (auto simp: started_only_with_stream_def stop_fields)
next
  case End
  then show ?thesis using inv
    by (auto simp: started_only_with_stream_def end_publisher_def stop_fields)
next
  case TearDown
  then show ?thesis using inv
    by (auto simp: started_only_with_stream_def tearDown_def stop_fields)
next
  case (Flush async)
  then show ?thesis using inv
    by (auto simp: started_only_with_stream_def flush_def split: option.splits)
next
  case (Subscriptions subs)
  then show ?thesis using inv by (simp add: started_only_with_stream_def)
qed


lemma exec_started_only_with_stream:
  "started_only_with_stream p \<Longrightarrow> started_only_with_stream (exec ms p)"
proof (induction ms arbitrary: p)
  case Nil
  then show ?case by simp
next
  case (Cons a ms)
  obtain pf m where a: "a = (pf, m)" by (cases a)
  show ?case using Cons a by (simp add: exec_method_started_only_with_stream)
qed


lemma new_publisher_invariants:
  "started_only_with_stream new_publisher" "stream_only_when_started new_publisher"
  by (simp_all add: started_only_with_stream_def stream_only_when_started_def new_publisher_def)

lemma example_platform_fields [simp]:
  "is_symlink (example_platform links c s) = (\<lambda>p. map_of links p \<noteq> None)"
  "read_symlink (example_platform links c s)
     = (\<lambda>p. case map_of links p of Some t \<Rightarrow> t | None \<Rightarrow> [])"
  "is_absolute (example_platform links c s) = posix_is_absolute"
  "parent_path (example_platform links c s) = posix_parent_path"
  "path_append (example_platform links c s) = posix_path_append"
  "FSEventStreamCreate (example_platform links c s) = (\<lambda>_. c)"
  "FSEventStreamStart (example_platform links c s) = (\<lambda>_. s)"
  "CFRunLoopGetCurrent (example_platform links c s) = 1"
  "CFRunLoopIsWaiting (example_platform links c s) = (\<lambda>_. True)"
  by (simp_all add: example_platform_def)

lemma symlink_loop_step:
  "link_depth < FSEVENTS_MAX_SYMLINK_DEPTH \<Longrightarrow> is_symlink pf (path sub) \<Longrightarrow>
     symlink_loop pf link_depth sub = symlink_loop pf (link_depth + 1) (follow_link pf sub)"
  by (subst symlink_loop.simps) simp

lemma symlink_loop_no_link:
  "\<not> is_symlink pf (path sub) \<Longrightarrow> symlink_loop pf link_depth sub = sub"
  by (subst symlink_loop.simps) simp

lemma symlink_loop_exhausted:
  "FSEVENTS_MAX_SYMLINK_DEPTH \<le> link_depth \<Longrightarrow> symlink_loop pf link_depth sub = sub"
  by (subst symlink_loop.simps) simp

lemma follow_link_fields:
  "link (follow_link pf sub) = (if link sub = [] then path sub else link sub)"
  "path (follow_link pf sub) =
     (if is_absolute pf (read_symlink pf (path sub)) then read_symlink pf (path sub)
      else path_append pf (parent_path pf (if link sub = [] then path sub else link sub))
             (read_symlink pf (path sub)))"
  "recursive (follow_link pf sub) = recursive sub"
  "mask (follow_link pf sub) = mask sub"
  by (simp_all add: follow_link_def Let_def)

lemma configure_subscriptions_result:
  "configure_subscriptions pf subs ps =
     (map (symlink_loop pf 0) subs, ps \<union> path ` set (map (symlink_loop pf 0) subs))"
  by (induction subs arbitrary: ps) (auto simp: Let_def)

lemma subscriptions_configure:
  "subscriptions (configure pf p) = map (symlink_loop pf 0) (subscriptions p)"
  by (simp add: configure_stream_fields Let_def configure_subscriptions_result restart_frame)

lemma paths_configure:
  "paths (configure pf p) = path ` set (map (symlink_loop pf 0) (subscriptions p))"
  by (simp add: configure_stream_fields Let_def configure_subscriptions_result restart_frame)

lemma configure_tmp:
  "subscriptions p = [tmp_subscription] \<Longrightarrow>
    configure (example_platform [] c s) p
      = restart (example_platform [] c s)
          (p\<lparr>subscriptions := [tmp_subscription], paths := {''/tmp''}\<rparr>)"
  by (simp add: configure_def Let_def symlink_loop_no_link tmp_subscription_def)







text \<open>
  Claim C8. \<open>stop\<close> is idempotent: a second \<open>stop\<close> right after the first leaves loop,
  stream, started flag and watched paths (and the subscriptions) as the first left
  them. After \<open>stop\<close> the stream handle is null and the loop binding is the one before
  the call, from any state; and \<open>stream_started_\<close> is false, from any state that a
  publisher reaches.
\<close>

theorem stop_idempotent:
  "publisher_state (stop (stop q)) = publisher_state (stop q)
   \<and> subscriptions (stop (stop q)) = subscriptions (stop q)
   \<and> stream (stop q) = None
   \<and> run_loop (stop q) = run_loop q
   \<and> \<not> stream_started (stop (exec ms new_publisher))
   \<and> publisher_state (stop (exec ms new_publisher))
       = (run_loop (exec ms new_publisher), None, False, paths (exec ms new_publisher))"
proof -
  have "started_only_with_stream (exec ms new_publisher)"
    by (rule exec_started_only_with_stream [OF new_publisher_invariants(1)])
  then have "\<not> stream_started (stop (exec ms new_publisher))"
    by (auto simp: started_only_with_stream_def stop_fields)
  then show ?thesis
    by (simp add: publisher_state_def stop_fields)
qed

theorem stop_idempotent_witness:
  "publisher_state (stop (stop (exec start_succeeds new_publisher)))
     = (Some 1, None, False, {''/tmp''})
   \<and> publisher_state (stop (exec start_succeeds new_publisher))
     = (Some 1, None, False, {''/tmp''})"
  using stop_idempotent [of "exec start_succeeds new_publisher" start_succeeds]
  by (simp add: start_succeeds_def configure_tmp run_def restart_def Let_def stop_def
      called_def new_publisher_def publisher_state_def)

lemma restart_no_paths: "paths p = {} \<Longrightarrow> restart pf p = called [Call_restart] p"
  by (simp add: restart_def Let_def)

lemma configure_no_subscriptions:
  "subscriptions p = [] \<Longrightarrow> configure pf p = p\<lparr>paths := {}\<rparr>"
  by (simp add: configure_def)

lemma exec_method_idle:
  assumes "idle p" and "\<forall>subs. m = Subscriptions subs \<longrightarrow> subs = []"
  shows "idle (exec_method pf m p)"
proof (cases m)
  case Configure
  then show ?thesis using assms by (simp add: idle_def configure_no_subscriptions)
next
  case Restart
  then show ?thesis using assms by (simp add: idle_def restart_no_paths)
next
  case Run
  then show ?thesis using assms by (simp add: idle_def run_def Let_def restart_no_paths)
next
  case Stop
  then show ?thesis using assms by (simp add: idle_def stop_fields)
next
  case End
  then show ?thesis using assms by (simp add: idle_def end_publisher_def stop_fields)
next
  case TearDown
  then show ?thesis using assms by (simp add: idle_def tearDown_def stop_fields)
next
  case (Flush async)
  then show ?thesis using assms by (simp add: idle_def flush_def)
next
  case (Subscriptions subs)
  then show ?thesis using assms by (simp add: idle_def)
qed

lemma exec_idle: "never_subscribed ms \<Longrightarrow> idle p \<Longrightarrow> idle (exec ms p)"
proof (induction ms arbitrary: p)
  case Nil
  then show ?case by simp
next
  case (Cons a ms)
  obtain pf m where a: "a = (pf, m)" by (cases a)
  have "idle (exec_method pf m p)"
    using Cons.prems a by (intro exec_method_idle) (auto simp: never_subscribed_def)
  moreover have "never_subscribed ms"
    using Cons.prems(1) by (simp add: never_subscribed_def)
  ultimately show ?case using Cons.IH a by simp
qed

lemma idle_new_publisher: "idle new_publisher"
  by (simp add: idle_def new_publisher_def)

lemma exec_unsubscribed_while_running:
  "subscriptions (exec unsubscribed_while_running new_publisher) = []"
  "stream (exec unsubscribed_while_running new_publisher) = Some 5"
  "stream_started (exec unsubscribed_while_running new_publisher) = True"
  "run_loop (exec unsubscribed_while_running new_publisher) = Some 1"
  by (simp_all add: unsubscribed_while_running_def configure_tmp run_def restart_def Let_def
      stop_def called_def new_publisher_def)

text \<open>
  Claim C9, as stated: after \<open>configure\<close> has run with no subscriptions,
  \<open>isStreamRunning\<close> is false. It fails for a publisher whose stream is running when
  its last subscription goes: subscribe \<open>/tmp\<close>, configure, run, and let the registry
  drop the subscription. \<open>configure\<close> then empties the watched paths and returns
  before \<open>restart\<close>, without a \<open>stop\<close>; stream 5 stays started on the loop, and
  \<open>isStreamRunning\<close> answers what \<open>CFRunLoopIsWaiting\<close> answers, here true.
\<close>

theorem configure_leaves_running_stream:
  "subscriptions (exec unsubscribed_while_running new_publisher) = []
   \<and> numSubscriptionedPaths
        (configure (example_platform [] (Some 5) True)
           (exec unsubscribed_while_running new_publisher)) = 0
   \<and> stream (configure (example_platform [] (Some 5) True)
        (exec unsubscribed_while_running new_publisher)) = Some 5
   \<and> isStreamRunning (example_platform [] (Some 5) True)
        (configure (example_platform [] (Some 5) True)
           (exec unsubscribed_while_running new_publisher))"
  by (simp add: configure_no_subscriptions exec_unsubscribed_while_running
      numSubscriptionedPaths_def isStreamRunning_def)

text \<open>
  Claim C9, amended. When \<open>configure\<close> runs with no subscriptions it returns having
  only emptied the set of watched paths: nothing is added to the trace of calls (no
  entry into \<open>restart\<close>, no \<open>FSEventStreamCreate\<close>, so no native watch is created),
  and \<open>numSubscriptionedPaths\<close> is 0. The call does not touch the stream, so
  \<open>isStreamRunning\<close> answers afterwards what it answered before: false for a publisher
  without a started stream before the call, as a new publisher is and as is one
  reached by any calls that never registered a subscription.
\<close>

theorem configure_without_subscriptions:
  "subscriptions p = [] \<Longrightarrow>
     configure pf p = p\<lparr>paths := {}\<rparr>
     \<and> numSubscriptionedPaths (configure pf p) = 0
     \<and> calls (configure pf p) = calls p
     \<and> stream (configure pf p) = stream p
     \<and> isStreamRunning pf' (configure pf p) = isStreamRunning pf' p
     \<and> (stream p = None \<or> \<not> stream_started p \<longrightarrow> \<not> isStreamRunning pf' (configure pf p))
     \<and> \<not> isStreamRunning pf' (configure pf new_publisher)
     \<and> (never_subscribed ms \<longrightarrow> \<not> isStreamRunning pf' (configure pf (exec ms new_publisher)))"
proof -
  assume a: "subscriptions p = []"
  have "idle (exec ms new_publisher)" if "never_subscribed ms"
    using that by (rule exec_idle [OF _ idle_new_publisher])
  then have "\<not> isStreamRunning pf' (configure pf (exec ms new_publisher))" if "never_subscribed ms"
    using that by (simp add: idle_def configure_no_subscriptions isStreamRunning_def)
  moreover have "\<not> isStreamRunning pf' (configure pf new_publisher)"
    by (simp add: configure_def new_publisher_def isStreamRunning_def)
  ultimately show ?thesis
    using a by (auto simp: configure_no_subscriptions numSubscriptionedPaths_def isStreamRunning_def)
qed

text \<open>
  On a platform whose \<open>FSEventStreamCreate\<close> would return a stream: a new publisher,
  and a publisher without subscriptions whose \<open>run\<close> has bound a loop.
\<close>

theorem configure_without_subscriptions_witness:
  "configure (example_platform [] (Some 5) True) new_publisher = new_publisher
   \<and> numSubscriptionedPaths (configure (example_platform [] (Some 5) True) new_publisher) = 0
   \<and> calls (configure (example_platform [] (Some 5) True) new_publisher) = []
   \<and> \<not> isStreamRunning (example_platform [] (Some 5) True)
         (configure (example_platform [] (Some 5) True) new_publisher)
   \<and> \<not> isStreamRunning (example_platform [] (Some 5) True)
         (configure (example_platform [] (Some 5) True)
            (exec [(example_platform [] (Some 5) True, Run)] new_publisher))"
proof -
  have h: "never_subscribed [(example_platform [] (Some 5) True, Run)]"
    by (simp add: never_subscribed_def)
  show ?thesis
    using configure_without_subscriptions
      [of new_publisher "example_platform [] (Some 5) True" "example_platform [] (Some 5) True"
          "[(example_platform [] (Some 5) True, Run)]"] h
    by (simp add: new_publisher_def numSubscriptionedPaths_def isStreamRunning_def)
qed

section \<open>Properties of the path resolver\<close>

text \<open>
  Claim C4. The resolver follows at most 5 links. For a subscription not resolved before
  (its \<open>link_\<close> is empty) whose path \<open>A\<close> starts a chain of six links \<open>A\<close> to \<open>B\<close> to
  \<open>C\<close> to \<open>D\<close> to \<open>E\<close> to \<open>F\<close> to the target, each read as an absolute path, the
  subscription has after \<open>configure\<close> the path \<open>F\<close>, which is still a link and not the
  target, and the original link path \<open>A\<close>; \<open>F\<close> is among the watched paths.
\<close>

theorem symlink_depth_bound:
  assumes sub: "i < length (subscriptions p)" "subscriptions p ! i = sub"
      "path sub = A" "link sub = []" "A \<noteq> []"
    and a: "is_symlink pf A" "read_symlink pf A = B" "is_absolute pf B"
    and b: "is_symlink pf B" "read_symlink pf B = C" "is_absolute pf C"
    and c: "is_symlink pf C" "read_symlink pf C = D" "is_absolute pf D"
    and d: "is_symlink pf D" "read_symlink pf D = E" "is_absolute pf E"
    and e: "is_symlink pf E" "read_symlink pf E = F" "is_absolute pf F"
    and f: "is_symlink pf F" "read_symlink pf F = target" "F \<noteq> target"
  shows "path (subscriptions (configure pf p) ! i) = F
    \<and> link (subscriptions (configure pf p) ! i) = A
    \<and> is_symlink pf (path (subscriptions (configure pf p) ! i))
    \<and> path (subscriptions (configure pf p) ! i) \<noteq> target
    \<and> F \<in> paths (configure pf p)"
proof -
  define s1 where "s1 = sub\<lparr>link := A, path := B\<rparr>"
  have h1: "follow_link pf sub = s1"
    using sub a by (simp add: follow_link_def Let_def s1_def)
  have h2: "follow_link pf s1 = s1\<lparr>path := C\<rparr>"
    using sub b by (simp add: follow_link_def Let_def s1_def)
  have h3: "follow_link pf (s1\<lparr>path := C\<rparr>) = s1\<lparr>path := D\<rparr>"
    using sub c by (simp add: follow_link_def Let_def s1_def)
  have h4: "follow_link pf (s1\<lparr>path := D\<rparr>) = s1\<lparr>path := E\<rparr>"
    using sub d by (simp add: follow_link_def Let_def s1_def)
  have h5: "follow_link pf (s1\<lparr>path := E\<rparr>) = s1\<lparr>path := F\<rparr>"
    using sub e by (simp add: follow_link_def Let_def s1_def)
  have "symlink_loop pf 0 sub = symlink_loop pf (Suc 0) s1"
    using symlink_loop_step [of 0 pf sub] sub a h1 by (simp add: FSEVENTS_MAX_SYMLINK_DEPTH_def)
  also have "\<dots> = symlink_loop pf (Suc (Suc 0)) (s1\<lparr>path := C\<rparr>)"
    using symlink_loop_step [of "Suc 0" pf s1] b h2
    by (simp add: FSEVENTS_MAX_SYMLINK_DEPTH_def s1_def)
  also have "\<dots> = symlink_loop pf (Suc (Suc (Suc 0))) (s1\<lparr>path := D\<rparr>)"
    using symlink_loop_step [of "Suc (Suc 0)" pf "s1\<lparr>path := C\<rparr>"] c h3
    by (simp add: FSEVENTS_MAX_SYMLINK_DEPTH_def)
  also have "\<dots> = symlink_loop pf (Suc (Suc (Suc (Suc 0)))) (s1\<lparr>path := E\<rparr>)"
    using symlink_loop_step [of "Suc (Suc (Suc 0))" pf "s1\<lparr>path := D\<rparr>"] d h4
    by (simp add: FSEVENTS_MAX_SYMLINK_DEPTH_def)
  also have "\<dots> = symlink_loop pf (Suc (Suc (Suc (Suc (Suc 0))))) (s1\<lparr>path := F\<rparr>)"
    using symlink_loop_step [of "Suc (Suc (Suc (Suc 0)))" pf "s1\<lparr>path := E\<rparr>"] e h5
    by (simp add: FSEVENTS_MAX_SYMLINK_DEPTH_def)
  also have "\<dots> = s1\<lparr>path := F\<rparr>"
    by (rule symlink_loop_exhausted) (simp add: FSEVENTS_MAX_SYMLINK_DEPTH_def)
  finally have loop: "symlink_loop pf 0 sub = s1\<lparr>path := F\<rparr>" .
  have at_i: "subscriptions (configure pf p) ! i = s1\<lparr>path := F\<rparr>"
    using sub loop by (simp add: subscriptions_configure)
  have "sub \<in> set (subscriptions p)"
    using sub by (auto simp: in_set_conv_nth)
  then have "F \<in> paths (configure pf p)"
    using loop by (force simp: paths_configure s1_def)
  then show ?thesis
    using at_i f by (simp add: s1_def)
qed

theorem symlink_depth_bound_witness:
  "path (subscriptions (configure six_links
           (new_publisher\<lparr>subscriptions :=
              [\<lparr>path = ''/l/a'', link = [], recursive = True, mask = 0\<rparr>]\<rparr>)) ! 0) = ''/l/f''
   \<and> link (subscriptions (configure six_links
           (new_publisher\<lparr>subscriptions :=
              [\<lparr>path = ''/l/a'', link = [], recursive = True, mask = 0\<rparr>]\<rparr>)) ! 0) = ''/l/a''"
  using symlink_depth_bound
    [of 0 "new_publisher\<lparr>subscriptions :=
              [\<lparr>path = ''/l/a'', link = [], recursive = True, mask = 0\<rparr>]\<rparr>"
        "\<lparr>path = ''/l/a'', link = [], recursive = True, mask = 0\<rparr>"
        "''/l/a''" six_links "''/l/b''" "''/l/c''" "''/l/d''" "''/l/e''" "''/l/f''" "''/data''"]
  by (simp add: six_links_def posix_is_absolute_def)

lemma chain_after_two_hops_fields:
  "path chain_after_two_hops = ''/c/l3''" "link chain_after_two_hops = ''/a/l1''"
  by (simp_all add: chain_after_two_hops_def chain_platform_def chain_subscription_def
      follow_link_fields posix_is_absolute_def)

lemma chain_third_hop:
  "path (follow_link chain_platform chain_after_two_hops) = ''/a/t''"
  by (simp add: follow_link_fields chain_after_two_hops_fields)
     (simp add: chain_platform_def posix_is_absolute_def posix_parent_path_def
       posix_path_append_def)

lemma chain_resolved:
  "path (symlink_loop chain_platform 0 chain_subscription) = ''/a/t''"
  by (simp add: symlink_loop.simps FSEVENTS_MAX_SYMLINK_DEPTH_def chain_platform_def
      chain_subscription_def follow_link_def Let_def posix_is_absolute_def
      posix_parent_path_def posix_path_append_def)

text \<open>
  On the first hop of a subscription not resolved before, \<open>link_\<close> is set to the link
  the hop starts from, and a relative target is resolved against the parent directory
  of that link.
\<close>

lemma first_hop_resolves_against_its_link:
  "link sub = [] \<Longrightarrow> \<not> is_absolute pf (read_symlink pf (path sub))
    \<Longrightarrow> resolves_against_latest_link pf sub"
  by (simp add: follow_link_fields resolves_against_latest_link_def)

text \<open>
  Claim C2. At a hop from a link with a relative target, the target is resolved against
  the parent directory of the path most recently known to be a link, so that relative
  targets are anchored correctly through chains of several links. The resolver misses
  this on every hop after the first, where it still anchors on \<open>link_\<close>, the first link
  of the chain. On the chain \<open>/a/l1\<close> to \<open>/b/l2\<close> to \<open>/c/l3\<close> to \<open>t\<close> the third hop
  starts from the link \<open>/c/l3\<close>, whose relative target \<open>t\<close> stands for \<open>/c/t\<close> (and the
  link before it was \<open>/b/l2\<close>); the resolver sets the path to \<open>/a/t\<close>, and that is the
  path \<open>configure\<close> leaves in the subscription.
\<close>

theorem relative_target_not_against_latest_link:
  "path chain_after_two_hops = ''/c/l3''
   \<and> link chain_after_two_hops = ''/a/l1''
   \<and> is_symlink chain_platform (path chain_after_two_hops)
   \<and> \<not> is_absolute chain_platform (read_symlink chain_platform (path chain_after_two_hops))
   \<and> path (follow_link chain_platform chain_after_two_hops) = ''/a/t''
   \<and> path_append chain_platform (parent_path chain_platform ''/c/l3'') ''t'' = ''/c/t''
   \<and> path_append chain_platform (parent_path chain_platform ''/b/l2'') ''t'' = ''/b/t''
   \<and> \<not> resolves_against_latest_link chain_platform chain_after_two_hops
   \<and> path (symlink_loop chain_platform 0 chain_subscription) = ''/a/t''"
  by (simp add: chain_after_two_hops_fields chain_third_hop chain_resolved
      resolves_against_latest_link_def)
     (simp add: chain_platform_def posix_is_absolute_def posix_parent_path_def
       posix_path_append_def)

end
